theory Spec2Isabelle
  imports Complex_Main "HOL-Library.Sublist"
begin

section \<open>Configuration constants of run.py\<close>

definition MAX_RETRIES :: int where
  "MAX_RETRIES = 10"

definition OUTPUT_DIR :: string where
  "OUTPUT_DIR = ''downloads''"

definition MAX_WORKERS :: nat where
  "MAX_WORKERS = 5"

definition TIMEOUT :: nat where
  "TIMEOUT = 10"

definition VIDEO_DOMAINS :: "string list" where
  "VIDEO_DOMAINS = [''youtube.com'', ''youtu.be'', ''vimeo.com'', ''dailymotion.com'']"

definition FAILED_LOG :: string where
  "FAILED_LOG = ''failed.txt''"

section \<open>Exceptions, console output and the world a task acts on\<close>

text \<open>
  Every exception modelled here is a subclass of Python's \<open>Exception\<close>, so each of them is
  caught by the \<open>except Exception\<close> handlers of run.py.
\<close>

datatype exn =
    FileExistsError string
  | KeyError string
  | TypeError
  | ZeroDivisionError
  | ValueError string
  | RequestException string
  | HTTPError nat
  | ParserError string
  | DownloadError string

text \<open>The lines run.py prints, one constructor for each \<open>print\<close> call of the source.\<close>

datatype message =
    DetectedVideoDomain string
  | ScanningWebpage
  | NoVideoLinksFound
  | FailedToExtract exn
  | DownloadComplete string
  | AttemptError int int string exn
  | Skipped string
  | ErrorDownloading string exn

text \<open>
  The state a download task reads and writes: the paths that exist in the file system, the
  text of the file \<open>FAILED_LOG\<close>, the console, and the calls made to the extractor
  (\<open>ydl.download([url])\<close>), in the order they were made.
\<close>

record world =
  fs :: "string set"
  failed_log :: string
  stdout :: "message list"
  ydl_calls :: "string list"

definition os_path_exists :: "string set \<Rightarrow> string \<Rightarrow> bool" where
  "os_path_exists paths p = (p \<in> paths)"

text \<open>\<open>os.makedirs(p)\<close> without \<open>exist_ok\<close> raises when the path is already there.\<close>

definition os_makedirs :: "string set \<Rightarrow> string \<Rightarrow> exn + string set" where
  "os_makedirs paths p = (if p \<in> paths then Inl (FileExistsError p) else Inr (insert p paths))"

section \<open>download_video_with_progress\<close>

text \<open>
  The extractor is a black box: \<open>ydl k\<close> is what the call made in attempt \<open>k\<close> of a task does,
  \<open>None\<close> when it returns and \<open>Some e\<close> when it raises \<open>e\<close>.

  \<open>attempt_loop\<close> is the body of \<open>for attempt in range(1, retries + 1)\<close>, run over the
  attempts that are still to come. The \<open>return\<close> after a successful download leaves the loop;
  after a failure the URL is written to the log when \<open>attempt == retries\<close>, and the loop
  goes on.
\<close>

fun attempt_loop :: "(int \<Rightarrow> exn option) \<Rightarrow> string \<Rightarrow> int \<Rightarrow> int list \<Rightarrow> world \<Rightarrow> world" where
  "attempt_loop ydl url retries [] w = w"
| "attempt_loop ydl url retries (attempt # rest) w =
     (let w1 = w\<lparr>ydl_calls := ydl_calls w @ [url]\<rparr> in
      case ydl attempt of
        None \<Rightarrow> w1\<lparr>stdout := stdout w1 @ [DownloadComplete url]\<rparr>
      | Some e \<Rightarrow>
          (let w2 = w1\<lparr>stdout := stdout w1 @ [AttemptError attempt retries url e]\<rparr>;
               w3 = (if attempt = retries
                     then w2\<lparr>failed_log := failed_log w2 @ url @ [CHR 0x0A],
                             stdout := stdout w2 @ [Skipped url]\<rparr>
                     else w2)
           in attempt_loop ydl url retries rest w3))"

text \<open>
  The whole function: the output directory is created when \<open>os.path.exists\<close> says it is
  missing (an exception of \<open>os.makedirs\<close> is outside every \<open>try\<close> and leaves the function),
  then the attempts \<open>1, \<dots>, retries\<close> run. \<open>[1..retries]\<close> is empty when \<open>retries < 1\<close>, as
  \<open>range(1, retries + 1)\<close> is.
\<close>

definition download_video_with_progress ::
    "(int \<Rightarrow> exn option) \<Rightarrow> string \<Rightarrow> string \<Rightarrow> int \<Rightarrow> world \<Rightarrow> exn + world" where
  "download_video_with_progress ydl url output_dir retries w =
     (case (if \<not> os_path_exists (fs w) output_dir
            then os_makedirs (fs w) output_dir
            else Inr (fs w)) of
        Inl e \<Rightarrow> Inl e
      | Inr paths \<Rightarrow> Inr (attempt_loop ydl url retries [1..retries] (w\<lparr>fs := paths\<rparr>)))"

section \<open>extract_video_urls\<close>

text \<open>
  The collaborators of the link discovery are parameters: \<open>urlparse\<close> (which raises
  \<open>ValueError\<close> on a malformed URL), \<open>requests.get\<close>, \<open>Response.raise_for_status\<close> and the
  HTML parser. A parsed page is the list of its tags in document order, each with its name
  and its attribute dictionary.
\<close>

record tag =
  tag_name :: string
  attrs :: "string \<rightharpoonup> string"

record response =
  status_code :: nat
  text_of :: string

record web =
  urlparse_netloc :: "string \<Rightarrow> exn + string"
  requests_get :: "string \<Rightarrow> nat \<Rightarrow> exn + response"
  raise_for_status :: "response \<Rightarrow> exn option"
  BeautifulSoup :: "string \<Rightarrow> exn + tag list"

text \<open>What the discovery does besides returning: console lines and HTTP requests.\<close>

datatype effect = Print message | HttpGet string nat

definition find_all :: "tag list \<Rightarrow> string \<Rightarrow> tag list" where
  "find_all soup name = filter (\<lambda>t. tag_name t = name) soup"

definition tag_get :: "tag \<Rightarrow> string \<Rightarrow> string option" where
  "tag_get t key = attrs t key"

text \<open>\<open>any(d in s for d in VIDEO_DOMAINS)\<close>: some domain is a substring of \<open>s\<close>.\<close>

definition any_video_domain_in :: "string \<Rightarrow> bool" where
  "any_video_domain_in s = list_ex (\<lambda>d. sublist d s) VIDEO_DOMAINS"

text \<open>\<open>[tag.get('src') for tag in video_tags if tag.get('src')]\<close>\<close>

definition video_tag_srcs :: "tag list \<Rightarrow> string list" where
  "video_tag_srcs video_tags =
     concat (map (\<lambda>t. case tag_get t ''src'' of
                         None \<Rightarrow> []
                       | Some src \<Rightarrow> if src \<noteq> [] then [src] else []) video_tags)"

text \<open>
  The two \<open>for\<close> loops over the iframe and the anchor tags: the attribute is appended when
  it is present, not empty and contains a video domain.
\<close>

fun append_matching :: "string \<Rightarrow> tag list \<Rightarrow> string list \<Rightarrow> string list" where
  "append_matching key [] video_urls = video_urls"
| "append_matching key (t # tags) video_urls =
     (case tag_get t key of
        None \<Rightarrow> append_matching key tags video_urls
      | Some v \<Rightarrow>
          if v \<noteq> [] \<and> any_video_domain_in v
          then append_matching key tags (video_urls @ [v])
          else append_matching key tags video_urls)"

text \<open>
  The body of the \<open>try\<close> block. \<open>list({url for url in video_urls if url})\<close> keeps one copy of
  each non-empty candidate; Python leaves the order of the resulting list open, \<open>remdups\<close>
  fixes one.
\<close>

definition scan_page :: "web \<Rightarrow> string \<Rightarrow> exn + (string list \<times> effect list)" where
  "scan_page web url =
     (case requests_get web url TIMEOUT of
        Inl e \<Rightarrow> Inl e
      | Inr resp \<Rightarrow>
          (case raise_for_status web resp of
             Some e \<Rightarrow> Inl e
           | None \<Rightarrow>
               (case BeautifulSoup web (text_of resp) of
                  Inl e \<Rightarrow> Inl e
                | Inr soup \<Rightarrow>
                    (let video_urls = [] @ video_tag_srcs (find_all soup ''video'');
                         video_urls = append_matching ''src'' (find_all soup ''iframe'') video_urls;
                         video_urls = append_matching ''href'' (find_all soup ''a'') video_urls;
                         video_urls = remdups (filter (\<lambda>u. u \<noteq> []) video_urls)
                     in if video_urls = []
                        then Inr ([url], [Print NoVideoLinksFound])
                        else Inr (video_urls, [])))))"

definition extract_video_urls :: "web \<Rightarrow> string \<Rightarrow> exn + (string list \<times> effect list)" where
  "extract_video_urls web url =
     (case urlparse_netloc web url of
        Inl e \<Rightarrow> Inl e
      | Inr domain \<Rightarrow>
          if any_video_domain_in domain
          then Inr ([url], [Print (DetectedVideoDomain domain)])
          else (let before = [Print ScanningWebpage, HttpGet url TIMEOUT] in
                case scan_page web url of
                  Inl e \<Rightarrow> Inr ([], before @ [Print (FailedToExtract e)])
                | Inr (video_urls, out) \<Rightarrow> Inr (video_urls, before @ out)))"

section \<open>progress_hook\<close>

text \<open>
  The values found in the extractor's progress dictionary. Python's \<open>int\<close> and \<open>float\<close> are
  both read as real numbers: the rounding of floating-point division is not modelled.
\<close>

datatype pyval = PyNone | PyStr string | PyNum real

text \<open>A tqdm bar: its position \<open>n\<close>, and how often \<open>refresh()\<close> was called on it.\<close>

record bar =
  bar_n :: real
  refreshes :: nat

text \<open>Python's truth value of an object, as the conditional expression uses it.\<close>

fun truthy :: "pyval \<Rightarrow> bool" where
  "truthy PyNone = False"
| "truthy (PyStr s) = (s \<noteq> [])"
| "truthy (PyNum x) = (x \<noteq> 0)"

text \<open>The operator \<open>/\<close>: defined on two numbers, and raising on a zero divisor.\<close>

fun py_truediv :: "pyval \<Rightarrow> pyval \<Rightarrow> exn + real" where
  "py_truediv (PyNum a) (PyNum b) = (if b = 0 then Inl ZeroDivisionError else Inr (a / b))"
| "py_truediv _ _ = Inl TypeError"

text \<open>
  The \<open>if\<close>/\<open>elif\<close>/\<open>else\<close> that picks \<open>total\<close> and \<open>done\<close> (here \<open>tot\<close> and \<open>dn\<close>): \<open>None\<close> stands for the bare
  \<open>return\<close> of the last branch. A key is in the dictionary when the map has a value for it,
  which may be Python's \<open>None\<close>.
\<close>

definition select_total :: "(string \<rightharpoonup> pyval) \<Rightarrow> exn + (pyval \<times> pyval) option" where
  "select_total data =
     (case data ''total_bytes'' of
        Some tot \<Rightarrow>
          (case data ''downloaded_bytes'' of
             None \<Rightarrow> Inl (KeyError ''downloaded_bytes'')
           | Some dn \<Rightarrow> Inr (Some (tot, dn)))
      | None \<Rightarrow>
          (case data ''total_bytes_estimate'' of
             Some tot \<Rightarrow>
               (case data ''downloaded_bytes'' of
                  None \<Rightarrow> Inl (KeyError ''downloaded_bytes'')
                | Some dn \<Rightarrow> Inr (Some (tot, dn)))
           | None \<Rightarrow> Inr None))"

text \<open>\<open>progress = (done / total) * 100 if total else 0\<close>\<close>

definition compute_progress :: "pyval \<Rightarrow> pyval \<Rightarrow> exn + real" where
  "compute_progress dn tot =
     (if truthy tot
      then (case py_truediv dn tot of Inl e \<Rightarrow> Inl e | Inr q \<Rightarrow> Inr (q * 100))
      else Inr 0)"

text \<open>
  The hook itself, on the global dictionary \<open>progress_bars\<close>. Looking up a missing key, in
  \<open>data\<close> or in \<open>progress_bars\<close>, raises \<open>KeyError\<close>.
\<close>

definition progress_hook ::
    "(string \<rightharpoonup> pyval) \<Rightarrow> string \<Rightarrow> (string \<rightharpoonup> bar) \<Rightarrow> exn + (string \<rightharpoonup> bar)" where
  "progress_hook data url progress_bars =
     (case data ''status'' of
        None \<Rightarrow> Inl (KeyError ''status'')
      | Some status \<Rightarrow>
          if status = PyStr ''downloading''
          then (case select_total data of
                  Inl e \<Rightarrow> Inl e
                | Inr None \<Rightarrow> Inr progress_bars
                | Inr (Some (tot, dn)) \<Rightarrow>
                    (case compute_progress dn tot of
                       Inl e \<Rightarrow> Inl e
                     | Inr progress \<Rightarrow>
                         (case progress_bars url of
                            None \<Rightarrow> Inl (KeyError url)
                          | Some b \<Rightarrow>
                              Inr (progress_bars(url \<mapsto>
                                     b\<lparr>bar_n := progress, refreshes := Suc (refreshes b)\<rparr>)))))
          else Inr progress_bars)"

section \<open>download_videos_in_parallel\<close>

text \<open>
  The pool runs \<open>download_video_with_progress\<close> on several worker threads over one file
  system, one log and one console, so a task is followed one step at a time. \<open>pc\<close> says
  where a task stands: submitted and waiting for a worker; past \<open>os.path.exists\<close>, which
  answered no, and about to call \<open>os.makedirs\<close>; at the head of the \<open>for\<close> loop with the
  next value of \<open>attempt\<close>; returned; or left by an exception, which the future keeps.
\<close>

datatype pc = Queued | Checked | Attempt int | Returned | Raised exn

fun in_flight :: "pc \<Rightarrow> bool" where
  "in_flight Checked = True"
| "in_flight (Attempt k) = True"
| "in_flight _ = False"

fun terminal :: "pc \<Rightarrow> bool" where
  "terminal Returned = True"
| "terminal (Raised e) = True"
| "terminal _ = False"

text \<open>
  One step of a task. The test and the creation of the directory are two system calls, and
  other threads may run between them. One pass through the loop body is \<open>attempt_loop\<close> on
  the single attempt \<open>k\<close>; the loop ends when \<open>range(1, retries + 1)\<close> is used up or the
  download returned.
\<close>

fun task_step ::
    "(int \<Rightarrow> exn option) \<Rightarrow> string \<Rightarrow> string \<Rightarrow> int \<Rightarrow> pc \<times> world \<Rightarrow> pc \<times> world" where
  "task_step ydl url output_dir retries (Queued, w) =
     (if \<not> os_path_exists (fs w) output_dir then (Checked, w) else (Attempt 1, w))"
| "task_step ydl url output_dir retries (Checked, w) =
     (case os_makedirs (fs w) output_dir of
        Inl e \<Rightarrow> (Raised e, w)
      | Inr paths \<Rightarrow> (Attempt 1, w\<lparr>fs := paths\<rparr>))"
| "task_step ydl url output_dir retries (Attempt k, w) =
     (if retries < k then (Returned, w)
      else (if ydl k = None then Returned else Attempt (k + 1),
            attempt_loop ydl url retries [k] w))"
| "task_step ydl url output_dir retries (Returned, w) = (Returned, w)"
| "task_step ydl url output_dir retries (Raised e, w) = (Raised e, w)"

text \<open>
  The orchestrator: the futures in submission order, each with its URL and the state of its
  task; the futures \<open>as_completed\<close> has handed out so far; the \<open>overall\<close> bar (\<open>n\<close> and
  \<open>total\<close>); and the world the tasks share.
\<close>

record orch =
  futures :: "(string \<times> pc) list"
  yielded :: "nat list"
  overall_n :: nat
  overall_total :: nat
  shared :: world

text \<open>
  The bar is created with \<open>total=len(video_urls)\<close>, and every URL of the list is submitted
  with the default \<open>output_dir\<close> and \<open>retries\<close>.
\<close>

definition submit_all :: "string list \<Rightarrow> world \<Rightarrow> orch" where
  "submit_all video_urls w =
     \<lparr>futures = map (\<lambda>url. (url, Queued)) video_urls,
      yielded = [],
      overall_n = 0,
      overall_total = length video_urls,
      shared = w\<rparr>"

text \<open>
  A queued task starts when fewer than \<open>MAX_WORKERS\<close> tasks are running and every task
  submitted before it has started: the pool hands its queue out in order.
\<close>

definition can_start :: "orch \<Rightarrow> nat \<Rightarrow> bool" where
  "can_start s i =
     (length (filter in_flight (map snd (futures s))) < MAX_WORKERS \<and>
      list_all (\<lambda>p. p \<noteq> Queued) (take i (map snd (futures s))))"

text \<open>
  What can happen next: a worker takes task \<open>i\<close> one step further, or the main thread's
  \<open>for future in as_completed(futures)\<close> receives the finished future \<open>i\<close>.
\<close>

datatype action = Run nat | Collect nat

text \<open>
  \<open>run_task\<close>: one step of task \<open>i\<close> on the shared world; \<open>ydl i\<close> is the extractor as task
  \<open>i\<close> meets it.
\<close>

definition run_task :: "(nat \<Rightarrow> int \<Rightarrow> exn option) \<Rightarrow> nat \<Rightarrow> orch \<Rightarrow> orch" where
  "run_task ydl i s =
     (let (url, p) = futures s ! i;
          (p', w') = task_step (ydl i) url OUTPUT_DIR MAX_RETRIES (p, shared s)
      in s\<lparr>futures := (futures s)[i := (url, p')], shared := w'\<rparr>)"

text \<open>
  \<open>collect\<close>: the body of the \<open>as_completed\<close> loop for future \<open>i\<close>. \<open>future.result()\<close>
  raises again what the task raised; the handler prints it; \<open>overall.update(1)\<close> follows in
  both cases.
\<close>

definition collect :: "nat \<Rightarrow> orch \<Rightarrow> orch" where
  "collect i s =
     (let (url, p) = futures s ! i;
          w' = (case p of
                  Raised e \<Rightarrow> (shared s)\<lparr>stdout := stdout (shared s) @ [ErrorDownloading url e]\<rparr>
                | _ \<Rightarrow> shared s)
      in s\<lparr>yielded := yielded s @ [i], overall_n := overall_n s + 1, shared := w'\<rparr>)"

text \<open>An action that cannot happen in a state leaves the state as it is.\<close>

fun orch_step :: "(nat \<Rightarrow> int \<Rightarrow> exn option) \<Rightarrow> action \<Rightarrow> orch \<Rightarrow> orch" where
  "orch_step ydl (Run i) s =
     (if i < length (futures s) \<and> (snd (futures s ! i) = Queued \<longrightarrow> can_start s i)
      then run_task ydl i s else s)"
| "orch_step ydl (Collect i) s =
     (if i < length (futures s) \<and> terminal (snd (futures s ! i)) \<and> i \<notin> set (yielded s)
      then collect i s else s)"

fun exec :: "(nat \<Rightarrow> int \<Rightarrow> exn option) \<Rightarrow> action list \<Rightarrow> orch \<Rightarrow> orch" where
  "exec ydl [] s = s"
| "exec ydl (a # sched) s = exec ydl sched (orch_step ydl a s)"

text \<open>
  A call of \<open>download_videos_in_parallel\<close>, as far as the steps of \<open>sched\<close> take it: the
  order in which the threads get to run is not in the program's hands, so it is an argument.
  The bars of the single URLs are written by the progress hook alone, which the extractor
  calls; they play no part in what follows and are left out of the state.
\<close>

definition download_videos_in_parallel ::
    "(nat \<Rightarrow> int \<Rightarrow> exn option) \<Rightarrow> action list \<Rightarrow> string list \<Rightarrow> world \<Rightarrow> orch" where
  "download_videos_in_parallel ydl sched video_urls w = exec ydl sched (submit_all video_urls w)"

text \<open>The \<open>as_completed\<close> loop is over when it has handed out every future.\<close>

definition finished :: "orch \<Rightarrow> bool" where
  "finished s = (length (yielded s) = length (futures s))"

text \<open>
  A schedule that always ends the run: every task in turn is given enough steps to end (the
  two steps for the directory, one for each attempt, one to leave the loop), then every
  future is received.
\<close>

definition drain :: "nat \<Rightarrow> action list" where
  "drain m = concat (map (\<lambda>i. replicate (nat MAX_RETRIES + 3) (Run i)) [0..<m]) @ map Collect [0..<m]"

section \<open>Invariants of a run of the pool\<close>

text \<open>
  What holds of the \<open>overall\<close> bar and the futures handed out, in every state of a run: the
  counter is the number of futures received, no future is received twice, each of them has
  ended, and the bar's total is the number of futures.
\<close>

definition counter_inv :: "orch \<Rightarrow> bool" where
  "counter_inv s =
     (overall_n s = length (yielded s) \<and> distinct (yielded s) \<and>
      (\<forall>i\<in>set (yielded s). i < length (futures s) \<and> terminal (map snd (futures s) ! i)) \<and>
      length (futures s) = overall_total s)"

text \<open>An upper bound on the steps a task still has to take; it is 0 exactly when the task has ended.\<close>

fun pc_measure :: "int \<Rightarrow> pc \<Rightarrow> nat" where
  "pc_measure r Queued = nat r + 3"
| "pc_measure r Checked = nat r + 2"
| "pc_measure r (Attempt k) = nat (r + 1 - k) + 1"
| "pc_measure r Returned = 0"
| "pc_measure r (Raised e) = 0"

text \<open>The pool starts tasks in submission order: behind a waiting task, all tasks wait.\<close>

definition queued_suffix :: "orch \<Rightarrow> bool" where
  "queued_suffix s =
     (\<forall>i j. i < j \<longrightarrow> j < length (futures s) \<longrightarrow>
        map snd (futures s) ! i = Queued \<longrightarrow> map snd (futures s) ! j = Queued)"

text \<open>The loop counter starts at 1 and only goes up.\<close>

fun pc_ok :: "pc \<Rightarrow> bool" where
  "pc_ok (Attempt k) = (1 \<le> k)"
| "pc_ok _ = True"

definition attempts_from_one :: "orch \<Rightarrow> bool" where
  "attempts_from_one s = list_all pc_ok (map snd (futures s))"

text \<open>
  A task at the loop, or one that has returned, is past the two steps for the directory; when
  some task is, the directory exists.
\<close>

fun past_directory :: "pc \<Rightarrow> bool" where
  "past_directory (Attempt k) = True"
| "past_directory Returned = True"
| "past_directory _ = False"

definition directory_inv :: "orch \<Rightarrow> bool" where
  "directory_inv s = (list_ex past_directory (map snd (futures s)) \<longrightarrow> OUTPUT_DIR \<in> fs (shared s))"

section \<open>The claims as worded, where they differ from the code\<close>

text \<open>
  The host of a URL, as \<open>urlparse(url).hostname\<close> gives it from the \<open>netloc\<close>: what follows the
  last \<open>@\<close>, up to the port's colon, in lower case (host names do not depend on case).
  Bracketed IPv6 literals are not treated.
\<close>

definition ascii_lower :: "char \<Rightarrow> char" where
  "ascii_lower c =
     (case map_of (zip ''ABCDEFGHIJKLMNOPQRSTUVWXYZ'' ''abcdefghijklmnopqrstuvwxyz'') c of
        Some l \<Rightarrow> l
      | None \<Rightarrow> c)"

definition hostname :: "string \<Rightarrow> string" where
  "hostname netloc =
     map ascii_lower
       (takeWhile (\<lambda>c. c \<noteq> CHR '':'') (rev (takeWhile (\<lambda>c. c \<noteq> CHR ''@'') (rev netloc))))"

text \<open>
  A host matches a recognised video-hosting domain when it is that domain or one of its
  subdomains. This is the reading of claim C4; the code tests \<open>any_video_domain_in\<close> on the
  \<open>netloc\<close> instead.
\<close>

definition claimed_video_host :: "string \<Rightarrow> bool" where
  "claimed_video_host netloc =
     list_ex (\<lambda>d. hostname netloc = d \<or> suffix (CHR ''.'' # d) (hostname netloc)) VIDEO_DOMAINS"

text \<open>
  The progress rule as claim C7 words it: the total is \<open>total_bytes\<close> if present, else
  \<open>total_bytes_estimate\<close> if present, else the event is ignored; the percentage is the
  quotient times 100, with no special case. \<open>present\<close> says which values count as present:
  every value stored under the key, or every value but Python's \<open>None\<close>.
\<close>

definition claimed_total :: "(pyval \<Rightarrow> bool) \<Rightarrow> (string \<rightharpoonup> pyval) \<Rightarrow> pyval option" where
  "claimed_total present data =
     (case Option.bind (data ''total_bytes'') (\<lambda>t. if present t then Some t else None) of
        Some t \<Rightarrow> Some t
      | None \<Rightarrow>
          Option.bind (data ''total_bytes_estimate'') (\<lambda>t. if present t then Some t else None))"

definition claimed_progress_hook ::
    "(pyval \<Rightarrow> bool) \<Rightarrow> (string \<rightharpoonup> pyval) \<Rightarrow> string \<Rightarrow> (string \<rightharpoonup> bar) \<Rightarrow>
     exn + (string \<rightharpoonup> bar)" where
  "claimed_progress_hook present data url progress_bars =
     (case claimed_total present data of
        None \<Rightarrow> Inr progress_bars
      | Some tot \<Rightarrow>
          (case data ''downloaded_bytes'' of
             None \<Rightarrow> Inl (KeyError ''downloaded_bytes'')
           | Some dn \<Rightarrow>
               (case py_truediv dn tot of
                  Inl e \<Rightarrow> Inl e
                | Inr q \<Rightarrow>
                    (case progress_bars url of
                       None \<Rightarrow> Inl (KeyError url)
                     | Some b \<Rightarrow>
                         Inr (progress_bars(url \<mapsto>
                                b\<lparr>bar_n := q * 100, refreshes := Suc (refreshes b)\<rparr>))))))"

section \<open>Properties of the retry loop\<close>

lemma attempt_loop_all_fail:
  "\<forall>k\<in>set ks. ydl k \<noteq> None \<Longrightarrow> retries \<notin> set ks \<Longrightarrow>
   attempt_loop ydl url retries ks w =
     w\<lparr>stdout := stdout w @ map (\<lambda>k. AttemptError k retries url (the (ydl k))) ks,
       ydl_calls := ydl_calls w @ replicate (length ks) url\<rparr>"
proof (induction ks arbitrary: w)
  case Nil
  show ?case by simp
next
  case (Cons k ks)
  from Cons.prems obtain e where e: "ydl k = Some e" by auto
  from Cons.prems have rest: "\<forall>j\<in>set ks. ydl j \<noteq> None" "retries \<notin> set ks" "k \<noteq> retries"
    by auto
  show ?case
    by (simp add: e rest Cons.IH [OF rest(1,2)] replicate_app_Cons_same)
qed

lemma attempt_loop_append:
  "\<forall>k\<in>set ks. ydl k \<noteq> None \<Longrightarrow>
   attempt_loop ydl url retries (ks @ ls) w =
     attempt_loop ydl url retries ls (attempt_loop ydl url retries ks w)"
proof (induction ks arbitrary: w)
  case Nil
  show ?case by simp
next
  case (Cons k ks)
  from Cons.prems obtain e where e: "ydl k = Some e" by auto
  from Cons.prems have rest: "\<forall>j\<in>set ks. ydl j \<noteq> None" by simp
  show ?case
    by (simp add: e Let_def Cons.IH [OF rest])
qed

lemma upto_last_split: "1 \<le> (r::int) \<Longrightarrow> [1..r] = [1..r - 1] @ [r]"
  using upto_rec2 [of 1 r] by simp

lemma upto_split_at: "1 \<le> (k::int) \<Longrightarrow> k \<le> r \<Longrightarrow> [1..r] = [1..k - 1] @ k # [k + 1..r]"
  using upto_split2 [of 1 k r] upto_rec1 [of k r] upto_split1 [of 1 k r] by simp

section \<open>The retry policy of a task\<close>

lemma ensure_dir:
  "(if \<not> os_path_exists paths d then os_makedirs paths d else Inr paths) = Inr (insert d paths)"
  by (auto simp: os_path_exists_def os_makedirs_def insert_absorb)

text \<open>
  Claim C1. A task whose extractor call raises in every one of the attempts \<open>1, \<dots>, retries\<close>
  (with at least one attempt configured) makes exactly \<open>retries\<close> calls to the extractor, appends
  exactly one line, the URL followed by a newline, to the failure log, and returns without raising.
  The console shows one error line for each attempt and the final skip notice.
\<close>

theorem C1_retries_exhausted:
  assumes R: "1 \<le> retries"
    and fail: "\<forall>k\<in>{1..retries}. ydl k \<noteq> None"
  shows "download_video_with_progress ydl url output_dir retries w =
     Inr (w\<lparr>fs := insert output_dir (fs w),
            failed_log := failed_log w @ url @ [CHR 0x0A],
            stdout := stdout w
              @ map (\<lambda>k. AttemptError k retries url (the (ydl k))) [1..retries]
              @ [Skipped url],
            ydl_calls := ydl_calls w @ replicate (nat retries) url\<rparr>)"
proof -
  let ?ks = "[1..retries - 1]"
  let ?w = "w\<lparr>fs := insert output_dir (fs w)\<rparr>"
  have a: "\<forall>k\<in>set ?ks. ydl k \<noteq> None" using fail by auto
  have b: "retries \<notin> set ?ks" by auto
  obtain e where e: "ydl retries = Some e" using fail R by fastforce
  have len: "Suc (length ?ks) = nat retries" using R by simp
  have rep: "replicate (length ?ks) url @ [url] = replicate (nat retries) url"
    using len by (metis replicate_Suc replicate_append_same)
  have "attempt_loop ydl url retries [1..retries] ?w =
        attempt_loop ydl url retries [retries] (attempt_loop ydl url retries ?ks ?w)"
    using attempt_loop_append [OF a, of url retries "[retries]" ?w] upto_last_split [OF R] by simp
  also have "\<dots> = w\<lparr>fs := insert output_dir (fs w),
            failed_log := failed_log w @ url @ [CHR 0x0A],
            stdout := stdout w
              @ map (\<lambda>k. AttemptError k retries url (the (ydl k))) [1..retries]
              @ [Skipped url],
            ydl_calls := ydl_calls w @ replicate (nat retries) url\<rparr>"
    using rep by (simp add: attempt_loop_all_fail [OF a b] e upto_last_split [OF R])
  finally show ?thesis
    by (simp add: download_video_with_progress_def ensure_dir)
qed

text \<open>Two attempts, both failing: one line is added to a log that already holds text.\<close>

theorem C1_retries_exhausted_witness:
  "download_video_with_progress (\<lambda>k. Some (DownloadError ''unavailable'')) ''http://a.example/v''
       ''downloads'' 2 \<lparr>fs = {}, failed_log = ''old'', stdout = [], ydl_calls = []\<rparr> =
     Inr \<lparr>fs = {''downloads''},
          failed_log = ''old'' @ ''http://a.example/v'' @ [CHR 0x0A],
          stdout = [AttemptError 1 2 ''http://a.example/v'' (DownloadError ''unavailable''),
                    AttemptError 2 2 ''http://a.example/v'' (DownloadError ''unavailable''),
                    Skipped ''http://a.example/v''],
          ydl_calls = [''http://a.example/v'', ''http://a.example/v'']\<rparr>"
  using C1_retries_exhausted [of 2 "\<lambda>k. Some (DownloadError ''unavailable'')"
      "''http://a.example/v''" "''downloads''"
      "\<lparr>fs = {}, failed_log = ''old'', stdout = [], ydl_calls = []\<rparr>"]
  by (simp add: upto_rec1 numeral_2_eq_2)

text \<open>
  Claim C2. A task whose extractor call raises in the attempts before \<open>k\<close> and returns in attempt
  \<open>k \<le> retries\<close> makes exactly \<open>k\<close> calls to the extractor, so none of the attempts
  \<open>k + 1, \<dots>, retries\<close> happens; it ends by printing the completion line for its URL and
  returning, and the failure log is what it was before.
\<close>

theorem C2_success_on_attempt_k:
  assumes k: "1 \<le> k" "k \<le> retries"
    and fail: "\<forall>j\<in>{1..<k}. ydl j \<noteq> None"
    and ok: "ydl k = None"
  shows "download_video_with_progress ydl url output_dir retries w =
     Inr (w\<lparr>fs := insert output_dir (fs w),
            stdout := stdout w
              @ map (\<lambda>j. AttemptError j retries url (the (ydl j))) [1..k - 1]
              @ [DownloadComplete url],
            ydl_calls := ydl_calls w @ replicate (nat k) url\<rparr>)"
proof -
  let ?ks = "[1..k - 1]"
  let ?w = "w\<lparr>fs := insert output_dir (fs w)\<rparr>"
  have a: "\<forall>j\<in>set ?ks. ydl j \<noteq> None" using fail by auto
  have b: "retries \<notin> set ?ks" using k by auto
  have len: "Suc (length ?ks) = nat k" using k by simp
  have rep: "replicate (length ?ks) url @ [url] = replicate (nat k) url"
    using len by (metis replicate_Suc replicate_append_same)
  have "attempt_loop ydl url retries [1..retries] ?w =
        attempt_loop ydl url retries (k # [k + 1..retries]) (attempt_loop ydl url retries ?ks ?w)"
    using attempt_loop_append [OF a, of url retries "k # [k + 1..retries]" ?w]
      upto_split_at [OF k] by simp
  also have "\<dots> = w\<lparr>fs := insert output_dir (fs w),
            stdout := stdout w
              @ map (\<lambda>j. AttemptError j retries url (the (ydl j))) [1..k - 1]
              @ [DownloadComplete url],
            ydl_calls := ydl_calls w @ replicate (nat k) url\<rparr>"
    using rep by (simp add: attempt_loop_all_fail [OF a b] ok)
  finally show ?thesis
    by (simp add: download_video_with_progress_def ensure_dir)
qed

text \<open>Three attempts allowed, the first two fail and the third succeeds.\<close>

theorem C2_success_on_attempt_k_witness:
  "download_video_with_progress (\<lambda>k. if k < 3 then Some (DownloadError ''reset'') else None)
       ''http://a.example/v'' ''downloads'' 3
       \<lparr>fs = {''downloads''}, failed_log = ''old'', stdout = [], ydl_calls = []\<rparr> =
     Inr \<lparr>fs = {''downloads''},
          failed_log = ''old'',
          stdout = [AttemptError 1 3 ''http://a.example/v'' (DownloadError ''reset''),
                    AttemptError 2 3 ''http://a.example/v'' (DownloadError ''reset''),
                    DownloadComplete ''http://a.example/v''],
          ydl_calls = [''http://a.example/v'', ''http://a.example/v'', ''http://a.example/v'']\<rparr>"
  using C2_success_on_attempt_k [of 3 3 "\<lambda>k. if k < 3 then Some (DownloadError ''reset'') else None"
      "''http://a.example/v''" "''downloads''"
      "\<lparr>fs = {''downloads''}, failed_log = ''old'', stdout = [], ydl_calls = []\<rparr>"]
  by (simp add: upto_rec1 numeral_3_eq_3)

text \<open>
  Claim C10. With \<open>retries\<close> zero or negative the function returns normally having made no call
  to the extractor, written nothing to the failure log and printed nothing: neither the
  completion line nor the skip notice appears. The only thing it still does is to make sure
  the output directory exists.
\<close>

theorem C10_no_retries:
  assumes "retries \<le> 0"
  shows "download_video_with_progress ydl url output_dir retries w =
           Inr (w\<lparr>fs := insert output_dir (fs w)\<rparr>)"
  using assms by (simp add: download_video_with_progress_def ensure_dir)

text \<open>No retries, the directory already there: the world is returned as it was.\<close>

theorem C10_no_retries_witness:
  "download_video_with_progress (\<lambda>k. None) ''http://a.example/v'' ''downloads'' 0
       \<lparr>fs = {''downloads''}, failed_log = ''old'', stdout = [], ydl_calls = []\<rparr> =
     Inr \<lparr>fs = {''downloads''}, failed_log = ''old'', stdout = [], ydl_calls = []\<rparr>"
  using C10_no_retries [of 0 "\<lambda>k. None" "''http://a.example/v''" "''downloads''"
      "\<lparr>fs = {''downloads''}, failed_log = ''old'', stdout = [], ydl_calls = []\<rparr>"]
  by simp

section \<open>Link discovery\<close>

text \<open>
  Claim C4, amended. When the \<open>netloc\<close> that \<open>urlparse\<close> returns for the URL, with its
  capitals kept, contains one of the recognised domain strings as a substring, the discovery
  returns the list holding just that URL. Its only effect is the console line naming the
  domain: no HTTP request is made.
\<close>

theorem C4_video_domain_bypass:
  assumes "urlparse_netloc web url = Inr domain"
    and "any_video_domain_in domain"
  shows "extract_video_urls web url = Inr ([url], [Print (DetectedVideoDomain domain)])"
  using assms by (simp add: extract_video_urls_def)

lemma append_matching_none:
  "\<forall>t\<in>set tags. \<forall>v. tag_get t key = Some v \<longrightarrow> v = [] \<or> \<not> any_video_domain_in v \<Longrightarrow>
   append_matching key tags acc = acc"
  by (induction tags arbitrary: acc) (auto split: option.splits)

lemma video_tag_srcs_none:
  "\<forall>t\<in>set tags. tag_get t ''src'' = None \<or> tag_get t ''src'' = Some [] \<Longrightarrow>
   video_tag_srcs tags = []"
  by (induction tags) (auto simp: video_tag_srcs_def)

text \<open>
  Claim C5. For a page that was fetched and parsed, on which every \<open>video\<close> tag has no \<open>src\<close>
  (or an empty one), no \<open>iframe\<close> has a \<open>src\<close> containing a video domain and no \<open>a\<close> has an
  \<open>href\<close> containing a video domain, the discovery returns the list holding just the
  original page URL.
\<close>

theorem C5_no_candidates_fallback:
  assumes host: "urlparse_netloc web url = Inr domain" "\<not> any_video_domain_in domain"
    and fetched: "requests_get web url TIMEOUT = Inr resp" "raise_for_status web resp = None"
    and parsed: "BeautifulSoup web (text_of resp) = Inr soup"
    and no_video: "\<forall>t\<in>set soup. tag_name t = ''video'' \<longrightarrow>
                     tag_get t ''src'' = None \<or> tag_get t ''src'' = Some []"
    and no_iframe: "\<forall>t\<in>set soup. tag_name t = ''iframe'' \<longrightarrow>
                     (\<forall>v. tag_get t ''src'' = Some v \<longrightarrow> \<not> any_video_domain_in v)"
    and no_anchor: "\<forall>t\<in>set soup. tag_name t = ''a'' \<longrightarrow>
                     (\<forall>v. tag_get t ''href'' = Some v \<longrightarrow> \<not> any_video_domain_in v)"
  shows "extract_video_urls web url =
           Inr ([url], [Print ScanningWebpage, HttpGet url TIMEOUT, Print NoVideoLinksFound])"
proof -
  have v: "video_tag_srcs (find_all soup ''video'') = []"
    using no_video by (intro video_tag_srcs_none) (auto simp: find_all_def)
  have i: "append_matching ''src'' (find_all soup ''iframe'') [] = []"
    using no_iframe by (intro append_matching_none) (auto simp: find_all_def)
  have a: "append_matching ''href'' (find_all soup ''a'') [] = []"
    using no_anchor by (intro append_matching_none) (auto simp: find_all_def)
  have "scan_page web url = Inr ([url], [Print NoVideoLinksFound])"
    by (simp add: scan_page_def fetched parsed v i a)
  then show ?thesis
    using host by (simp add: extract_video_urls_def)
qed

text \<open>
  Claim C6. When the request raises, or the status check raises, or the parser raises, the
  discovery does not raise: it prints the error and returns the empty list, whatever the page
  would have held.
\<close>

theorem C6_fetch_or_parse_failure:
  assumes host: "urlparse_netloc web url = Inr domain" "\<not> any_video_domain_in domain"
    and failure: "requests_get web url TIMEOUT = Inl e \<or>
       (\<exists>resp. requests_get web url TIMEOUT = Inr resp \<and>
          (raise_for_status web resp = Some e \<or>
           raise_for_status web resp = None \<and> BeautifulSoup web (text_of resp) = Inl e))"
  shows "extract_video_urls web url =
           Inr ([], [Print ScanningWebpage, HttpGet url TIMEOUT, Print (FailedToExtract e)])"
proof -
  have "scan_page web url = Inl e"
    using failure by (auto simp: scan_page_def)
  then show ?thesis
    using host by (simp add: extract_video_urls_def)
qed


text \<open>The scenario of the specification: a YouTube URL, and a network that would fail.\<close>

theorem C4_video_domain_bypass_witness:
  "extract_video_urls
     \<lparr>urlparse_netloc = (\<lambda>u. Inr ''youtube.com''),
      requests_get = (\<lambda>u t. Inl (RequestException ''unreachable'')),
      raise_for_status = (\<lambda>r. None),
      BeautifulSoup = (\<lambda>s. Inr [])\<rparr>
     ''https://youtube.com/watch?v=abc'' =
   Inr ([''https://youtube.com/watch?v=abc''], [Print (DetectedVideoDomain ''youtube.com'')])"
proof -
  have h: "any_video_domain_in ''youtube.com''"
    by (simp add: any_video_domain_in_def VIDEO_DOMAINS_def)
  show ?thesis
    using C4_video_domain_bypass [where domain = "''youtube.com''"
        and url = "''https://youtube.com/watch?v=abc''"
        and web = "\<lparr>urlparse_netloc = (\<lambda>u. Inr ''youtube.com''),
          requests_get = (\<lambda>u t. Inl (RequestException ''unreachable'')),
          raise_for_status = (\<lambda>r. None),
          BeautifulSoup = (\<lambda>s. Inr [])\<rparr>", OF _ h]
    by simp
qed

text \<open>
  Claim C4 as worded, for every URL whose host matches a recognised domain, does not hold.
  The host of \<open>https://WWW.YOUTUBE.COM/watch?v=abc\<close> is \<open>www.youtube.com\<close>, a subdomain of
  \<open>youtube.com\<close>; \<open>urlparse\<close> leaves the capitals in the \<open>netloc\<close>, the substring test of
  the code fails on them, and the page is requested and scanned. Here the page holds a
  \<open>video\<close> tag, so the result is not the URL either.
\<close>

theorem C4_uppercase_host_counterexample:
  "claimed_video_host ''WWW.YOUTUBE.COM''
   \<and> extract_video_urls
       \<lparr>urlparse_netloc = (\<lambda>u. Inr ''WWW.YOUTUBE.COM''),
        requests_get = (\<lambda>u t. Inr \<lparr>status_code = 200, text_of = ''<video src=clip.mp4>''\<rparr>),
        raise_for_status = (\<lambda>r. None),
        BeautifulSoup = (\<lambda>s. Inr [\<lparr>tag_name = ''video'', attrs = [''src'' \<mapsto> ''clip.mp4'']\<rparr>])\<rparr>
       ''https://WWW.YOUTUBE.COM/watch?v=abc'' =
     Inr ([''clip.mp4''],
          [Print ScanningWebpage, HttpGet ''https://WWW.YOUTUBE.COM/watch?v=abc'' TIMEOUT])"
  by (simp add: claimed_video_host_def hostname_def ascii_lower_def VIDEO_DOMAINS_def
      suffix_to_prefix extract_video_urls_def any_video_domain_in_def sublist_code
      scan_page_def find_all_def video_tag_srcs_def tag_get_def)

text \<open>A page with one local anchor and a \<open>video\<close> tag without \<open>src\<close>.\<close>

theorem C5_no_candidates_fallback_witness:
  "extract_video_urls
     \<lparr>urlparse_netloc = (\<lambda>u. Inr ''example.com''),
      requests_get = (\<lambda>u t. Inr \<lparr>status_code = 200, text_of = ''<a href=/about>x</a><video></video>''\<rparr>),
      raise_for_status = (\<lambda>r. if 400 \<le> status_code r then Some (HTTPError (status_code r)) else None),
      BeautifulSoup = (\<lambda>s. Inr [\<lparr>tag_name = ''a'', attrs = [''href'' \<mapsto> ''/about'']\<rparr>,
                                   \<lparr>tag_name = ''video'', attrs = Map.empty\<rparr>])\<rparr>
     ''https://example.com/clip.mp4'' =
   Inr ([''https://example.com/clip.mp4''],
        [Print ScanningWebpage, HttpGet ''https://example.com/clip.mp4'' TIMEOUT, Print NoVideoLinksFound])"
proof -
  have h: "\<not> any_video_domain_in ''example.com''" "\<not> any_video_domain_in ''/about''"
    by (simp_all add: any_video_domain_in_def VIDEO_DOMAINS_def sublist_code)
  show ?thesis
    using C5_no_candidates_fallback [where domain = "''example.com''"
        and url = "''https://example.com/clip.mp4''"
        and resp = "\<lparr>status_code = 200, text_of = ''<a href=/about>x</a><video></video>''\<rparr>"
        and soup = "[\<lparr>tag_name = ''a'', attrs = [''href'' \<mapsto> ''/about'']\<rparr>,
                     \<lparr>tag_name = ''video'', attrs = Map.empty\<rparr>]"
        and web = "\<lparr>urlparse_netloc = (\<lambda>u. Inr ''example.com''),
      requests_get = (\<lambda>u t. Inr \<lparr>status_code = 200, text_of = ''<a href=/about>x</a><video></video>''\<rparr>),
      raise_for_status = (\<lambda>r. if 400 \<le> status_code r then Some (HTTPError (status_code r)) else None),
      BeautifulSoup = (\<lambda>s. Inr [\<lparr>tag_name = ''a'', attrs = [''href'' \<mapsto> ''/about'']\<rparr>,
                                   \<lparr>tag_name = ''video'', attrs = Map.empty\<rparr>])\<rparr>"]
      h
    by (simp add: tag_get_def)
qed

text \<open>A 404 response: the candidate the parser would have found is never looked at.\<close>

theorem C6_fetch_or_parse_failure_witness:
  "extract_video_urls
     \<lparr>urlparse_netloc = (\<lambda>u. Inr ''example.com''),
      requests_get = (\<lambda>u t. Inr \<lparr>status_code = 404, text_of = ''not found''\<rparr>),
      raise_for_status = (\<lambda>r. if 400 \<le> status_code r then Some (HTTPError (status_code r)) else None),
      BeautifulSoup = (\<lambda>s. Inr [\<lparr>tag_name = ''video'', attrs = [''src'' \<mapsto> ''clip.mp4'']\<rparr>])\<rparr>
     ''https://example.com/watch'' =
   Inr ([], [Print ScanningWebpage, HttpGet ''https://example.com/watch'' TIMEOUT,
             Print (FailedToExtract (HTTPError 404))])"
proof -
  have h: "\<not> any_video_domain_in ''example.com''"
    by (simp add: any_video_domain_in_def VIDEO_DOMAINS_def sublist_code)
  show ?thesis
    using C6_fetch_or_parse_failure [where domain = "''example.com''"
        and url = "''https://example.com/watch''" and e = "HTTPError 404"
        and web = "\<lparr>urlparse_netloc = (\<lambda>u. Inr ''example.com''),
      requests_get = (\<lambda>u t. Inr \<lparr>status_code = 404, text_of = ''not found''\<rparr>),
      raise_for_status = (\<lambda>r. if 400 \<le> status_code r then Some (HTTPError (status_code r)) else None),
      BeautifulSoup = (\<lambda>s. Inr [\<lparr>tag_name = ''video'', attrs = [''src'' \<mapsto> ''clip.mp4'']\<rparr>])\<rparr>"]
      h
    by simp
qed

section \<open>Progress percentage\<close>

lemma compute_progress_no_zero_division: "compute_progress dn tot \<noteq> Inl ZeroDivisionError"
  by (cases dn; cases tot) (auto simp: compute_progress_def)

text \<open>
  Claim C7, amended. Take an event with status \<open>downloading\<close> that carries
  \<open>downloaded_bytes\<close>, on a URL that has a bar. The total is the value stored under
  \<open>total_bytes\<close> when that key is in the event, whatever the value; otherwise the value stored
  under \<open>total_bytes_estimate\<close> when that key is in the event. When the total is a number
  other than zero (and \<open>downloaded_bytes\<close> a number), the bar is set to
  \<open>downloaded_bytes / total * 100\<close> and refreshed. When
  the total is \<open>None\<close> or zero, the bar is set to 0 and refreshed, and an estimate that
  stands beside such a \<open>total_bytes\<close> is not used. When neither key is in the event, the
  hook returns with the bars untouched.
\<close>

theorem C7_percentage:
  assumes "data ''status'' = Some (PyStr ''downloading'')"
    and "data ''downloaded_bytes'' = Some dn"
    and "progress_bars url = Some b"
  shows "(data ''total_bytes'' = Some (PyNum tot) \<and> tot \<noteq> 0 \<and> dn = PyNum d \<longrightarrow>
            progress_hook data url progress_bars =
              Inr (progress_bars(url \<mapsto>
                     b\<lparr>bar_n := d / tot * 100, refreshes := Suc (refreshes b)\<rparr>)))
       \<and> (data ''total_bytes'' = Some t \<and> \<not> truthy t \<longrightarrow>
            progress_hook data url progress_bars =
              Inr (progress_bars(url \<mapsto> b\<lparr>bar_n := 0, refreshes := Suc (refreshes b)\<rparr>)))
       \<and> (data ''total_bytes'' = None \<and>
          data ''total_bytes_estimate'' = Some (PyNum tot) \<and> tot \<noteq> 0 \<and> dn = PyNum d \<longrightarrow>
            progress_hook data url progress_bars =
              Inr (progress_bars(url \<mapsto>
                     b\<lparr>bar_n := d / tot * 100, refreshes := Suc (refreshes b)\<rparr>)))
       \<and> (data ''total_bytes'' = None \<and>
          data ''total_bytes_estimate'' = Some t \<and> \<not> truthy t \<longrightarrow>
            progress_hook data url progress_bars =
              Inr (progress_bars(url \<mapsto> b\<lparr>bar_n := 0, refreshes := Suc (refreshes b)\<rparr>)))
       \<and> (data ''total_bytes'' = None \<and> data ''total_bytes_estimate'' = None \<longrightarrow>
            progress_hook data url progress_bars = Inr progress_bars)"
  using assms
  by (simp add: progress_hook_def select_total_def compute_progress_def)

text \<open>
  One event for each of the five cases: in the first the estimate is there as well and is
  not used; in the second \<open>total_bytes\<close> is \<open>None\<close> beside a usable estimate.
\<close>

theorem C7_percentage_witness:
  "progress_hook [''status'' \<mapsto> PyStr ''downloading'', ''downloaded_bytes'' \<mapsto> PyNum 50,
                  ''total_bytes'' \<mapsto> PyNum 200, ''total_bytes_estimate'' \<mapsto> PyNum 100]
     ''u'' [''u'' \<mapsto> \<lparr>bar_n = 0, refreshes = 0\<rparr>] =
     Inr [''u'' \<mapsto> \<lparr>bar_n = 25, refreshes = 1\<rparr>]
   \<and> progress_hook [''status'' \<mapsto> PyStr ''downloading'', ''downloaded_bytes'' \<mapsto> PyNum 50,
                  ''total_bytes'' \<mapsto> PyNone, ''total_bytes_estimate'' \<mapsto> PyNum 100]
     ''u'' [''u'' \<mapsto> \<lparr>bar_n = 40, refreshes = 0\<rparr>] =
     Inr [''u'' \<mapsto> \<lparr>bar_n = 0, refreshes = 1\<rparr>]
   \<and> progress_hook [''status'' \<mapsto> PyStr ''downloading'', ''downloaded_bytes'' \<mapsto> PyNum 50,
                  ''total_bytes_estimate'' \<mapsto> PyNum 100]
     ''u'' [''u'' \<mapsto> \<lparr>bar_n = 0, refreshes = 0\<rparr>] =
     Inr [''u'' \<mapsto> \<lparr>bar_n = 50, refreshes = 1\<rparr>]
   \<and> progress_hook [''status'' \<mapsto> PyStr ''downloading'', ''downloaded_bytes'' \<mapsto> PyNum 50,
                  ''total_bytes_estimate'' \<mapsto> PyNone]
     ''u'' [''u'' \<mapsto> \<lparr>bar_n = 40, refreshes = 0\<rparr>] =
     Inr [''u'' \<mapsto> \<lparr>bar_n = 0, refreshes = 1\<rparr>]
   \<and> progress_hook [''status'' \<mapsto> PyStr ''downloading'', ''downloaded_bytes'' \<mapsto> PyNum 50]
     ''u'' [''u'' \<mapsto> \<lparr>bar_n = 40, refreshes = 0\<rparr>] =
     Inr [''u'' \<mapsto> \<lparr>bar_n = 40, refreshes = 0\<rparr>]"
  using
    C7_percentage [where data = "[''status'' \<mapsto> PyStr ''downloading'', ''downloaded_bytes'' \<mapsto> PyNum 50,
                  ''total_bytes'' \<mapsto> PyNum 200, ''total_bytes_estimate'' \<mapsto> PyNum 100]"
      and dn = "PyNum 50" and d = 50 and tot = 200 and url = "''u''"
      and progress_bars = "[''u'' \<mapsto> \<lparr>bar_n = 0, refreshes = 0\<rparr>]"
      and b = "\<lparr>bar_n = 0, refreshes = 0\<rparr>"]
    C7_percentage [where data = "[''status'' \<mapsto> PyStr ''downloading'', ''downloaded_bytes'' \<mapsto> PyNum 50,
                  ''total_bytes'' \<mapsto> PyNone, ''total_bytes_estimate'' \<mapsto> PyNum 100]"
      and dn = "PyNum 50" and t = PyNone and url = "''u''"
      and progress_bars = "[''u'' \<mapsto> \<lparr>bar_n = 40, refreshes = 0\<rparr>]"
      and b = "\<lparr>bar_n = 40, refreshes = 0\<rparr>"]
    C7_percentage [where data = "[''status'' \<mapsto> PyStr ''downloading'', ''downloaded_bytes'' \<mapsto> PyNum 50,
                  ''total_bytes_estimate'' \<mapsto> PyNum 100]"
      and dn = "PyNum 50" and d = 50 and tot = 100 and url = "''u''"
      and progress_bars = "[''u'' \<mapsto> \<lparr>bar_n = 0, refreshes = 0\<rparr>]"
      and b = "\<lparr>bar_n = 0, refreshes = 0\<rparr>"]
    C7_percentage [where data = "[''status'' \<mapsto> PyStr ''downloading'', ''downloaded_bytes'' \<mapsto> PyNum 50,
                  ''total_bytes_estimate'' \<mapsto> PyNone]"
      and dn = "PyNum 50" and t = PyNone and url = "''u''"
      and progress_bars = "[''u'' \<mapsto> \<lparr>bar_n = 40, refreshes = 0\<rparr>]"
      and b = "\<lparr>bar_n = 40, refreshes = 0\<rparr>"]
    C7_percentage [where data = "[''status'' \<mapsto> PyStr ''downloading'', ''downloaded_bytes'' \<mapsto> PyNum 50]"
      and dn = "PyNum 50" and url = "''u''"
      and progress_bars = "[''u'' \<mapsto> \<lparr>bar_n = 40, refreshes = 0\<rparr>]"
      and b = "\<lparr>bar_n = 40, refreshes = 0\<rparr>"]
  by simp

text \<open>
  Claim C7 as worded does not hold for an event whose \<open>total_bytes\<close> is \<open>None\<close>, which the
  extractor sends when it does not know the size. With an estimate of 100 beside it and 50
  bytes downloaded, the code sets the bar to 0; the claim gives 50 when \<open>None\<close> counts as
  not present, and no number at all when it counts as present. Without an estimate the code
  still sets the bar to 0 and refreshes it, where the claim has the event ignored.
\<close>

theorem C7_none_total_counterexample:
  "progress_hook [''status'' \<mapsto> PyStr ''downloading'', ''downloaded_bytes'' \<mapsto> PyNum 50,
                  ''total_bytes'' \<mapsto> PyNone, ''total_bytes_estimate'' \<mapsto> PyNum 100]
     ''u'' [''u'' \<mapsto> \<lparr>bar_n = 40, refreshes = 3\<rparr>] =
     Inr [''u'' \<mapsto> \<lparr>bar_n = 0, refreshes = 4\<rparr>]
   \<and> claimed_progress_hook (\<lambda>v. v \<noteq> PyNone)
     [''status'' \<mapsto> PyStr ''downloading'', ''downloaded_bytes'' \<mapsto> PyNum 50,
      ''total_bytes'' \<mapsto> PyNone, ''total_bytes_estimate'' \<mapsto> PyNum 100]
     ''u'' [''u'' \<mapsto> \<lparr>bar_n = 40, refreshes = 3\<rparr>] =
     Inr [''u'' \<mapsto> \<lparr>bar_n = 50, refreshes = 4\<rparr>]
   \<and> claimed_progress_hook (\<lambda>v. True)
     [''status'' \<mapsto> PyStr ''downloading'', ''downloaded_bytes'' \<mapsto> PyNum 50,
      ''total_bytes'' \<mapsto> PyNone, ''total_bytes_estimate'' \<mapsto> PyNum 100]
     ''u'' [''u'' \<mapsto> \<lparr>bar_n = 40, refreshes = 3\<rparr>] =
     Inl TypeError
   \<and> progress_hook [''status'' \<mapsto> PyStr ''downloading'', ''downloaded_bytes'' \<mapsto> PyNum 50,
                  ''total_bytes'' \<mapsto> PyNone]
     ''u'' [''u'' \<mapsto> \<lparr>bar_n = 40, refreshes = 3\<rparr>] =
     Inr [''u'' \<mapsto> \<lparr>bar_n = 0, refreshes = 4\<rparr>]
   \<and> claimed_progress_hook (\<lambda>v. v \<noteq> PyNone)
     [''status'' \<mapsto> PyStr ''downloading'', ''downloaded_bytes'' \<mapsto> PyNum 50,
      ''total_bytes'' \<mapsto> PyNone]
     ''u'' [''u'' \<mapsto> \<lparr>bar_n = 40, refreshes = 3\<rparr>] =
     Inr [''u'' \<mapsto> \<lparr>bar_n = 40, refreshes = 3\<rparr>]"
  by (simp add: progress_hook_def select_total_def compute_progress_def
      claimed_progress_hook_def claimed_total_def)

text \<open>
  Claim C9. The hook never raises \<open>ZeroDivisionError\<close>, whatever the event; and for a
  \<open>downloading\<close> event whose selected total is the number zero, the bar is set to 0 and
  refreshed.
\<close>

theorem C9_zero_total_guarded:
  "progress_hook data url progress_bars \<noteq> Inl ZeroDivisionError
   \<and> (data ''status'' = Some (PyStr ''downloading'') \<and>
      (data ''total_bytes'' = Some (PyNum 0) \<or>
       data ''total_bytes'' = None \<and> data ''total_bytes_estimate'' = Some (PyNum 0)) \<and>
      data ''downloaded_bytes'' = Some dn \<and> progress_bars url = Some b \<longrightarrow>
      progress_hook data url progress_bars =
        Inr (progress_bars(url \<mapsto> b\<lparr>bar_n := 0, refreshes := Suc (refreshes b)\<rparr>)))"
proof
  show "progress_hook data url progress_bars \<noteq> Inl ZeroDivisionError"
    using compute_progress_no_zero_division
    by (auto simp: progress_hook_def select_total_def split: option.splits sum.splits)
next
  show "data ''status'' = Some (PyStr ''downloading'') \<and>
      (data ''total_bytes'' = Some (PyNum 0) \<or>
       data ''total_bytes'' = None \<and> data ''total_bytes_estimate'' = Some (PyNum 0)) \<and>
      data ''downloaded_bytes'' = Some dn \<and> progress_bars url = Some b \<longrightarrow>
      progress_hook data url progress_bars =
        Inr (progress_bars(url \<mapsto> b\<lparr>bar_n := 0, refreshes := Suc (refreshes b)\<rparr>))"
    by (auto simp: progress_hook_def select_total_def compute_progress_def)
qed


text \<open>\<open>total_bytes\<close> is zero: the bar drops to 0, and the estimate is not consulted.\<close>

theorem C9_zero_total_guarded_witness:
  "progress_hook [''status'' \<mapsto> PyStr ''downloading'', ''downloaded_bytes'' \<mapsto> PyNum 50,
                  ''total_bytes'' \<mapsto> PyNum 0, ''total_bytes_estimate'' \<mapsto> PyNum 100]
     ''u'' [''u'' \<mapsto> \<lparr>bar_n = 40, refreshes = 3\<rparr>] =
     Inr [''u'' \<mapsto> \<lparr>bar_n = 0, refreshes = 4\<rparr>]"
  using
    C9_zero_total_guarded [of "[''status'' \<mapsto> PyStr ''downloading'', ''downloaded_bytes'' \<mapsto> PyNum 50,
                  ''total_bytes'' \<mapsto> PyNum 0, ''total_bytes_estimate'' \<mapsto> PyNum 100]"
      "''u''" "[''u'' \<mapsto> \<lparr>bar_n = 40, refreshes = 3\<rparr>]" "PyNum 50" "\<lparr>bar_n = 40, refreshes = 3\<rparr>"]
  by simp

section \<open>The pool: counter, directory and single tasks\<close>

lemma task_step_terminal: "terminal p \<Longrightarrow> task_step ydl url d r (p, w) = (p, w)"
  by (cases p) simp_all

lemma task_step_not_Queued: "fst (task_step ydl url d r (p, w)) \<noteq> Queued"
  by (cases p) (auto simp: split: sum.splits)

lemma run_task_fields [simp]:
  "yielded (run_task ydl i s) = yielded s"
  "overall_n (run_task ydl i s) = overall_n s"
  "overall_total (run_task ydl i s) = overall_total s"
  "length (futures (run_task ydl i s)) = length (futures s)"
  by (simp_all add: run_task_def split: prod.splits)

lemma run_task_pcs:
  "map snd (futures (run_task ydl i s)) =
     (map snd (futures s))[i := fst (task_step (ydl i) (fst (futures s ! i)) OUTPUT_DIR MAX_RETRIES
                                       (snd (futures s ! i), shared s))]"
  by (simp add: run_task_def map_update split: prod.splits)

lemma collect_fields [simp]:
  "futures (collect i s) = futures s"
  "yielded (collect i s) = yielded s @ [i]"
  "overall_n (collect i s) = Suc (overall_n s)"
  "overall_total (collect i s) = overall_total s"
  by (simp_all add: collect_def split: prod.splits)

lemma counter_inv_init: "counter_inv (submit_all video_urls w)"
  by (simp add: counter_inv_def submit_all_def)

lemma counter_inv_step: "counter_inv s \<Longrightarrow> counter_inv (orch_step ydl a s)"
proof (cases a)
  case (Run i)
  assume inv: "counter_inv s"
  show ?thesis
  proof (cases "i < length (futures s) \<and> (snd (futures s ! i) = Queued \<longrightarrow> can_start s i)")
    case False
    with inv Run show ?thesis by auto
  next
    case True
    have "terminal (map snd (futures (run_task ydl i s)) ! j)"
      if j: "j \<in> set (yielded s)" for j
    proof -
      from inv j have jl: "j < length (futures s)" and tj: "terminal (map snd (futures s) ! j)"
        by (auto simp: counter_inv_def)
      show ?thesis
      proof (cases "j = i")
        case True
        with tj jl show ?thesis
          by (simp add: run_task_pcs task_step_terminal)
      next
        case False
        with tj jl show ?thesis
          by (simp add: run_task_pcs)
      qed
    qed
    with inv True Run show ?thesis
      by (auto simp: counter_inv_def)
  qed
next
  case (Collect i)
  assume "counter_inv s"
  with Collect show ?thesis
    by (auto simp: counter_inv_def)
qed

lemma counter_inv_exec: "counter_inv s \<Longrightarrow> counter_inv (exec ydl sched s)"
  by (induction sched arbitrary: s) (simp_all add: counter_inv_step)

lemma counter_inv_le: "counter_inv s \<Longrightarrow> overall_n s \<le> overall_total s"
proof -
  assume inv: "counter_inv s"
  then have "set (yielded s) \<subseteq> {..<length (futures s)}" and d: "distinct (yielded s)"
    by (auto simp: counter_inv_def)
  then have "card (set (yielded s)) \<le> card {..<length (futures s)}"
    by (intro card_mono) auto
  with d inv show ?thesis
    by (simp add: distinct_card counter_inv_def)
qed

lemma pc_measure_terminal: "pc_measure r p = 0 \<longleftrightarrow> terminal p"
  by (cases p) simp_all

lemma task_step_measure:
  "\<not> terminal p \<Longrightarrow> pc_measure r (fst (task_step ydl url d r (p, w))) < pc_measure r p"
  by (cases p) (auto split: sum.splits)

lemma exec_append: "exec ydl (xs @ ys) s = exec ydl ys (exec ydl xs s)"
  by (induction xs arbitrary: s) simp_all

lemma length_futures_step [simp]: "length (futures (orch_step ydl a s)) = length (futures s)"
  by (cases a) simp_all

lemma length_futures_exec [simp]: "length (futures (exec ydl sched s)) = length (futures s)"
  by (induction sched arbitrary: s) simp_all

lemma queued_suffix_step: "queued_suffix s \<Longrightarrow> queued_suffix (orch_step ydl a s)"
proof (cases a)
  case (Collect i)
  assume "queued_suffix s"
  with Collect show ?thesis by (simp add: queued_suffix_def)
next
  case (Run i)
  assume q: "queued_suffix s"
  show ?thesis
  proof (cases "i < length (futures s) \<and> (snd (futures s ! i) = Queued \<longrightarrow> can_start s i)")
    case False
    with q Run show ?thesis by auto
  next
    case True
    let ?p' = "fst (task_step (ydl i) (fst (futures s ! i)) OUTPUT_DIR MAX_RETRIES
                      (snd (futures s ! i), shared s))"
    have p': "?p' \<noteq> Queued" by (rule task_step_not_Queued)
    have "map snd (futures (run_task ydl i s)) ! b = Queued"
      if ab: "a < b" "b < length (futures s)"
        and qa: "map snd (futures (run_task ydl i s)) ! a = Queued" for a b
    proof -
      from ab qa p' True have ai: "a \<noteq> i" and olda: "map snd (futures s) ! a = Queued"
        by (auto simp: run_task_pcs nth_list_update split: if_splits)
      with q ab have oldb: "map snd (futures s) ! b = Queued"
        by (auto simp: queued_suffix_def)
      have "b \<noteq> i"
      proof
        assume bi: "b = i"
        with oldb ab True have "can_start s i" by simp
        then have "list_all (\<lambda>p. p \<noteq> Queued) (take i (map snd (futures s)))"
          by (simp add: can_start_def)
        moreover from ab bi have "map snd (futures s) ! a \<in> set (take i (map snd (futures s)))"
          by (metis in_set_conv_nth length_map length_take min.absorb2 less_imp_le_nat
              nth_take order.strict_trans)
        ultimately have "map snd (futures s) ! a \<noteq> Queued"
          by (simp add: list_all_iff)
        with olda show False by simp
      qed
      with oldb show ?thesis by (simp add: run_task_pcs)
    qed
    with True Run show ?thesis
      by (simp add: queued_suffix_def)
  qed
qed

lemma queued_suffix_exec: "queued_suffix s \<Longrightarrow> queued_suffix (exec ydl sched s)"
  by (induction sched arbitrary: s) (simp_all add: queued_suffix_step)

lemma queued_suffix_init: "queued_suffix (submit_all video_urls w)"
  by (simp add: queued_suffix_def submit_all_def)

lemma can_start_front:
  assumes i: "i < length (futures s)"
    and q: "queued_suffix s"
    and before: "\<forall>j<i. terminal (map snd (futures s) ! j)"
    and qi: "map snd (futures s) ! i = Queued"
  shows "can_start s i"
proof -
  have nf: "\<not> in_flight (map snd (futures s) ! j)" if j: "j < length (futures s)" for j
  proof (cases "j < i")
    case True
    with before have "terminal (map snd (futures s) ! j)" by simp
    then show ?thesis by (cases "map snd (futures s) ! j") simp_all
  next
    case False
    have "map snd (futures s) ! j = Queued"
    proof (cases "j = i")
      case True
      with qi show ?thesis by simp
    next
      case False
      with \<open>\<not> j < i\<close> have "i < j" by simp
      with q j qi show ?thesis by (simp add: queued_suffix_def)
    qed
    then show ?thesis by simp
  qed
  have "filter in_flight (map snd (futures s)) = []"
    unfolding filter_empty_conv
  proof
    fix p assume "p \<in> set (map snd (futures s))"
    then obtain j where "j < length (futures s)" "p = map snd (futures s) ! j"
      by (metis in_set_conv_nth length_map)
    with nf show "\<not> in_flight p" by simp
  qed
  moreover have "list_all (\<lambda>p. p \<noteq> Queued) (take i (map snd (futures s)))"
    unfolding list_all_iff
  proof
    fix p assume "p \<in> set (take i (map snd (futures s)))"
    then obtain j where "j < i" "p = map snd (futures s) ! j"
      by (auto simp: in_set_conv_nth)
    with before have "terminal p" by simp
    then show "p \<noteq> Queued" by auto
  qed
  ultimately show ?thesis
    by (simp add: can_start_def MAX_WORKERS_def)
qed

lemma run_until_terminal:
  assumes "i < length (futures s)"
    and "queued_suffix s"
    and "\<forall>j<i. terminal (map snd (futures s) ! j)"
    and "pc_measure MAX_RETRIES (map snd (futures s) ! i) \<le> m"
  shows "\<forall>j\<le>i. terminal (map snd (futures (exec ydl (replicate m (Run i)) s)) ! j)"
  using assms
proof (induction m arbitrary: s)
  case 0
  then have "terminal (map snd (futures s) ! i)"
    by (simp add: pc_measure_terminal)
  with 0 show ?case
    by (auto simp: le_less)
next
  case (Suc m)
  let ?s = "orch_step ydl (Run i) s"
  let ?p = "map snd (futures s) ! i"
  have len: "i < length (futures ?s)" using Suc.prems by simp
  have q: "queued_suffix ?s" using Suc.prems(2) by (rule queued_suffix_step)
  have enabled: "snd (futures s ! i) = Queued \<longrightarrow> can_start s i"
    using can_start_front [of i s] Suc.prems by simp
  have pcs: "map snd (futures ?s) =
      (map snd (futures s))[i := fst (task_step (ydl i) (fst (futures s ! i)) OUTPUT_DIR MAX_RETRIES
                                       (snd (futures s ! i), shared s))]"
    using enabled Suc.prems(1) by (simp add: run_task_pcs)
  have before: "\<forall>j<i. terminal (map snd (futures ?s) ! j)"
  proof (intro allI impI)
    fix j assume j: "j < i"
    then have "map snd (futures ?s) ! j = map snd (futures s) ! j"
      unfolding pcs by simp
    with Suc.prems(3) j show "terminal (map snd (futures ?s) ! j)"
      by metis
  qed
  have at_i: "map snd (futures ?s) ! i =
      fst (task_step (ydl i) (fst (futures s ! i)) OUTPUT_DIR MAX_RETRIES
             (snd (futures s ! i), shared s))"
    unfolding pcs using Suc.prems(1) by simp
  have p: "?p = snd (futures s ! i)"
    using Suc.prems(1) by simp
  have "pc_measure MAX_RETRIES (map snd (futures ?s) ! i) \<le> m"
  proof (cases "terminal ?p")
    case True
    then have "map snd (futures ?s) ! i = ?p"
      unfolding at_i p by (simp add: task_step_terminal)
    with True show ?thesis
      using pc_measure_terminal [of MAX_RETRIES ?p] by simp
  next
    case False
    then have "\<not> terminal (snd (futures s ! i))" unfolding p .
    from task_step_measure [OF this, of MAX_RETRIES "ydl i" "fst (futures s ! i)" OUTPUT_DIR "shared s"]
    have "pc_measure MAX_RETRIES (map snd (futures ?s) ! i) < pc_measure MAX_RETRIES ?p"
      unfolding at_i p .
    with Suc.prems(4) show ?thesis by simp
  qed
  from Suc.IH [OF len q before this] show ?case by simp
qed

lemma task_step_pc_ok: "pc_ok p \<Longrightarrow> pc_ok (fst (task_step ydl url d r (p, w)))"
  by (cases p) (auto split: sum.splits)

lemma attempts_from_one_step: "attempts_from_one s \<Longrightarrow> attempts_from_one (orch_step ydl a s)"
proof (cases a)
  case (Collect i)
  assume "attempts_from_one s"
  with Collect show ?thesis by (simp add: attempts_from_one_def)
next
  case (Run i)
  assume ok: "attempts_from_one s"
  show ?thesis
  proof (cases "i < length (futures s) \<and> (snd (futures s ! i) = Queued \<longrightarrow> can_start s i)")
    case False
    with ok Run show ?thesis by auto
  next
    case True
    with ok have "pc_ok (snd (futures s ! i))"
      by (simp add: attempts_from_one_def list_all_length)
    then have "pc_ok (fst (task_step (ydl i) (fst (futures s ! i)) OUTPUT_DIR MAX_RETRIES
                             (snd (futures s ! i), shared s)))"
      by (rule task_step_pc_ok)
    with ok True Run show ?thesis
      by (auto simp: attempts_from_one_def run_task_pcs list_all_length nth_list_update)
  qed
qed

lemma attempts_from_one_exec: "attempts_from_one s \<Longrightarrow> attempts_from_one (exec ydl sched s)"
  by (induction sched arbitrary: s) (simp_all add: attempts_from_one_step)

lemma attempts_from_one_init: "attempts_from_one (submit_all video_urls w)"
  by (simp add: attempts_from_one_def submit_all_def list_all_iff)

lemma pc_measure_bound: "pc_ok p \<Longrightarrow> pc_measure MAX_RETRIES p \<le> nat MAX_RETRIES + 3"
  by (cases p) (simp_all add: MAX_RETRIES_def)

lemma run_all_terminal:
  assumes "k \<le> length (futures s)" and "queued_suffix s" and "attempts_from_one s"
  shows "\<forall>j<k. terminal (map snd (futures
           (exec ydl (concat (map (\<lambda>i. replicate (nat MAX_RETRIES + 3) (Run i)) [0..<k])) s)) ! j)"
  using assms
proof (induction k)
  case 0
  show ?case by simp
next
  case (Suc k)
  let ?s = "exec ydl (concat (map (\<lambda>i. replicate (nat MAX_RETRIES + 3) (Run i)) [0..<k])) s"
  have a: "k < length (futures ?s)" using Suc.prems by simp
  have b: "queued_suffix ?s" using Suc.prems by (simp add: queued_suffix_exec)
  have c: "\<forall>j<k. terminal (map snd (futures ?s) ! j)" using Suc by simp
  have "attempts_from_one ?s" using Suc.prems by (simp add: attempts_from_one_exec)
  with a have "pc_ok (map snd (futures ?s) ! k)"
    by (simp add: attempts_from_one_def list_all_length)
  then have d: "pc_measure MAX_RETRIES (map snd (futures ?s) ! k) \<le> nat MAX_RETRIES + 3"
    by (rule pc_measure_bound)
  from run_until_terminal [OF a b c d, of ydl] show ?case
    by (simp add: exec_append less_Suc_eq_le)
qed

lemma pcs_collect_step [simp]: "futures (orch_step ydl (Collect i) s) = futures s"
  by simp

lemma collect_all:
  assumes "k \<le> length (futures s)"
    and "\<forall>j<length (futures s). terminal (map snd (futures s) ! j)"
  shows "futures (exec ydl (map Collect [0..<k]) s) = futures s \<and>
         {0..<k} \<subseteq> set (yielded (exec ydl (map Collect [0..<k]) s))"
  using assms
proof (induction k)
  case 0
  show ?case by simp
next
  case (Suc k)
  let ?s = "exec ydl (map Collect [0..<k]) s"
  from Suc have IH: "futures ?s = futures s" "{0..<k} \<subseteq> set (yielded ?s)" by simp_all
  have "set (yielded ?s) \<union> {k} \<subseteq> set (yielded (orch_step ydl (Collect k) ?s))"
    using Suc.prems IH(1) by auto
  with IH show ?case
    by (auto simp: exec_append atLeast0_lessThan_Suc)
qed

lemma drain_finishes:
  assumes inv: "counter_inv s" and q: "queued_suffix s" and ok: "attempts_from_one s"
  shows "finished (exec ydl (drain (length (futures s))) s)"
proof -
  let ?n = "length (futures s)"
  let ?s1 = "exec ydl (concat (map (\<lambda>i. replicate (nat MAX_RETRIES + 3) (Run i)) [0..<?n])) s"
  let ?s2 = "exec ydl (map Collect [0..<?n]) ?s1"
  have t: "\<forall>j<length (futures ?s1). terminal (map snd (futures ?s1) ! j)"
    using run_all_terminal [OF order_refl q ok, of ydl] by simp
  have "futures ?s2 = futures ?s1 \<and> {0..<?n} \<subseteq> set (yielded ?s2)"
    using collect_all [of ?n ?s1 ydl] t by simp
  then have sub: "{0..<?n} \<subseteq> set (yielded ?s2)" by simp
  have inv2: "counter_inv ?s2"
    using inv by (simp add: counter_inv_exec)
  then have "set (yielded ?s2) \<subseteq> {0..<?n}" and d: "distinct (yielded ?s2)"
    by (auto simp: counter_inv_def)
  with sub have "set (yielded ?s2) = {0..<?n}" by auto
  then have "card (set (yielded ?s2)) = ?n" by simp
  with d have "length (yielded ?s2) = ?n" by (simp add: distinct_card)
  then show ?thesis
    by (simp add: finished_def drain_def exec_append)
qed

lemma attempt_loop_fs [simp]: "fs (attempt_loop ydl url r ks w) = fs w"
  by (induction ks arbitrary: w) (auto simp: Let_def split: option.splits)

lemma task_step_fs_mono: "fs w \<subseteq> fs (snd (task_step ydl url d r (p, w)))"
  by (cases p) (auto simp: os_makedirs_def simp del: attempt_loop.simps)

lemma task_step_reaches_loop:
  "past_directory (fst (task_step ydl url d r (p, w))) \<Longrightarrow> \<not> past_directory p \<Longrightarrow>
   d \<in> fs (snd (task_step ydl url d r (p, w)))"
  by (cases p) (auto simp: os_makedirs_def os_path_exists_def simp del: attempt_loop.simps
      split: if_splits)

lemma directory_inv_init: "directory_inv (submit_all video_urls w)"
  by (simp add: directory_inv_def submit_all_def list_ex_iff)

lemma directory_inv_step: "directory_inv s \<Longrightarrow> directory_inv (orch_step ydl a s)"
proof (cases a)
  case (Collect i)
  assume "directory_inv s"
  with Collect show ?thesis
    by (auto simp: directory_inv_def collect_def split: prod.splits pc.splits)
next
  case (Run i)
  assume inv: "directory_inv s"
  show ?thesis
  proof (cases "i < length (futures s) \<and> (snd (futures s ! i) = Queued \<longrightarrow> can_start s i)")
    case False
    with inv Run show ?thesis by auto
  next
    case True
    obtain url p where up: "futures s ! i = (url, p)" by (cases "futures s ! i")
    obtain p' w' where st: "task_step (ydl i) url OUTPUT_DIR MAX_RETRIES (p, shared s) = (p', w')"
      by (cases "task_step (ydl i) url OUTPUT_DIR MAX_RETRIES (p, shared s)")
    have s': "orch_step ydl a s = s\<lparr>futures := (futures s)[i := (url, p')], shared := w'\<rparr>"
      using True Run up st by (simp add: run_task_def)
    have mono: "fs (shared s) \<subseteq> fs w'"
      using task_step_fs_mono [of "shared s" "ydl i" url OUTPUT_DIR MAX_RETRIES p] st by simp
    have "OUTPUT_DIR \<in> fs w'"
      if ex: "list_ex past_directory (map snd ((futures s)[i := (url, p')]))"
    proof (cases "list_ex past_directory (map snd (futures s))")
      case True
      with inv mono show ?thesis by (auto simp: directory_inv_def)
    next
      case False
      from ex obtain j where j: "j < length (futures s)"
          and pj: "past_directory (snd ((futures s)[i := (url, p')] ! j))"
        by (auto simp: list_ex_iff in_set_conv_nth)
      from False j have nj: "\<not> past_directory (snd (futures s ! j))"
        by (auto simp: list_ex_iff)
      with pj j have ji: "j = i" by (cases "j = i") auto
      with pj j have "past_directory p'" by simp
      moreover from nj ji up have "\<not> past_directory p" by simp
      ultimately show ?thesis
        using task_step_reaches_loop [of "ydl i" url OUTPUT_DIR MAX_RETRIES p "shared s"] st
        by simp
    qed
    then show ?thesis
      by (simp add: s' directory_inv_def)
  qed
qed

lemma directory_inv_exec: "directory_inv s \<Longrightarrow> directory_inv (exec ydl sched s)"
  by (induction sched arbitrary: s) (simp_all add: directory_inv_step)

lemma task_step_calls:
  "ydl_calls (snd (task_step ydl url d r (p, w))) \<noteq> ydl_calls w \<Longrightarrow> past_directory p"
  by (cases p) (auto simp: os_makedirs_def split: if_splits)

text \<open>
  In every run of the pool, a step that calls the extractor is taken in a state whose file
  system holds the output directory.
\<close>

lemma directory_before_download:
  assumes "s = download_videos_in_parallel ydl sched video_urls w"
    and "ydl_calls (shared (orch_step ydl a s)) \<noteq> ydl_calls (shared s)"
  shows "OUTPUT_DIR \<in> fs (shared s)"
proof -
  have inv: "directory_inv s"
    unfolding assms(1) download_videos_in_parallel_def
    by (intro directory_inv_exec directory_inv_init)
  show ?thesis
  proof (cases a)
    case (Collect i)
    with assms(2) show ?thesis
      by (auto simp: collect_def split: prod.splits pc.splits if_splits)
  next
    case (Run i)
    with assms(2) have en: "i < length (futures s)"
      and ch: "ydl_calls (shared (run_task ydl i s)) \<noteq> ydl_calls (shared s)"
      by (auto split: if_splits)
    obtain url p where up: "futures s ! i = (url, p)" by (cases "futures s ! i")
    from ch up have "ydl_calls (snd (task_step (ydl i) url OUTPUT_DIR MAX_RETRIES (p, shared s)))
        \<noteq> ydl_calls (shared s)"
      by (simp add: run_task_def split: prod.splits)
    then have "past_directory p" by (rule task_step_calls)
    moreover from en up have "(url, p) \<in> set (futures s)"
      by (metis nth_mem)
    ultimately have "list_ex past_directory (map snd (futures s))"
      by (force simp: list_ex_iff)
    with inv show ?thesis by (simp add: directory_inv_def)
  qed
qed

text \<open>
  A task that runs alone, with no other thread between its steps, does what
  \<open>download_video_with_progress\<close> does.
\<close>

lemma funpow_fixpoint: "f x = x \<Longrightarrow> (f ^^ m) x = x"
  by (induction m) simp_all

lemma loop_steps:
  "nat (r + 1 - k) < m \<Longrightarrow>
   (task_step ydl url d r ^^ m) (Attempt k, w) = (Returned, attempt_loop ydl url r [k..r] w)"
proof (induction "nat (r + 1 - k)" arbitrary: k w m)
  case 0
  then have k: "r < k" by simp
  from 0 obtain m' where m: "m = Suc m'" by (cases m) auto
  show ?case
    using k by (simp add: m funpow_swap1 funpow_fixpoint)
next
  case (Suc n)
  then have k: "k \<le> r" by simp
  from Suc obtain m' where m: "m = Suc m'" by (cases m) auto
  have up: "[k..r] = k # [k + 1..r]" using k by (simp add: upto_rec1)
  show ?case
  proof (cases "ydl k")
    case None
    with k show ?thesis
      by (simp add: m up funpow_swap1 funpow_fixpoint)
  next
    case (Some e)
    have n: "n = nat (r + 1 - (k + 1))" using Suc.hyps(2) by simp
    have m': "nat (r + 1 - (k + 1)) < m'" using Suc.prems m k by simp
    have "(task_step ydl url d r ^^ m) (Attempt k, w) =
          (task_step ydl url d r ^^ m') (Attempt (k + 1), attempt_loop ydl url r [k] w)"
      using k Some by (simp add: m funpow_swap1)
    also have "\<dots> = (Returned, attempt_loop ydl url r [k + 1..r] (attempt_loop ydl url r [k] w))"
      by (rule Suc.hyps(1) [OF n m'])
    also have "attempt_loop ydl url r [k + 1..r] (attempt_loop ydl url r [k] w) =
               attempt_loop ydl url r [k..r] w"
      using attempt_loop_append [of "[k]" ydl url r "[k + 1..r]" w] Some by (simp add: up)
    finally show ?thesis .
  qed
qed

lemma solo_task:
  "(task_step ydl url d r ^^ (nat r + 3)) (Queued, w) =
     (case download_video_with_progress ydl url d r w of
        Inl e \<Rightarrow> (Raised e, w)
      | Inr w' \<Rightarrow> (Returned, w'))"
proof -
  let ?w = "w\<lparr>fs := insert d (fs w)\<rparr>"
  have "(task_step ydl url d r ^^ (nat r + 3)) (Queued, w) =
        (Returned, attempt_loop ydl url r [1..r] ?w)"
  proof (cases "d \<in> fs w")
    case True
    then have w: "?w = w" by (simp add: insert_absorb)
    have "(task_step ydl url d r ^^ (nat r + 3)) (Queued, w) =
          (task_step ydl url d r ^^ (nat r + 2)) (Attempt 1, w)"
      using True funpow_swap1 [of "task_step ydl url d r" "nat r + 2" "(Queued, w)"]
      by (simp add: os_path_exists_def numeral_3_eq_3 numeral_2_eq_2)
    also have "\<dots> = (Returned, attempt_loop ydl url r [1..r] w)"
      by (rule loop_steps) simp
    finally show ?thesis by (simp add: w)
  next
    case False
    have "(task_step ydl url d r ^^ (nat r + 3)) (Queued, w) =
          (task_step ydl url d r ^^ (nat r + 2)) (Checked, w)"
      using False funpow_swap1 [of "task_step ydl url d r" "nat r + 2" "(Queued, w)"]
      by (simp add: os_path_exists_def numeral_3_eq_3 numeral_2_eq_2)
    also have "\<dots> = (task_step ydl url d r ^^ (nat r + 1)) (Attempt 1, ?w)"
      using False funpow_swap1 [of "task_step ydl url d r" "nat r + 1" "(Checked, w)"]
      by (simp add: os_makedirs_def numeral_2_eq_2)
    also have "\<dots> = (Returned, attempt_loop ydl url r [1..r] ?w)"
      by (rule loop_steps) simp
    finally show ?thesis .
  qed
  then show ?thesis
    by (simp add: download_video_with_progress_def ensure_dir)
qed

text \<open>
  Claim C3. Take any list of URLs, any behaviour of the extractor and any schedule of worker
  steps and received futures, and let \<open>s\<close> be the state it leads to. The counter of the overall
  bar is the number of futures received so far, each of them belongs to a task that has
  returned or raised, and the counter is at most the number of submitted URLs. When the loop
  has received every future, the counter is that number. And from \<open>s\<close> the run can always be
  brought to its end: tasks that raised or used up their retries do not stand in the way.
\<close>

theorem C3_overall_counter:
  fixes ydl sched video_urls w
  defines "s \<equiv> download_videos_in_parallel ydl sched video_urls w"
  shows "overall_n s = length (yielded s)
       \<and> (\<forall>i\<in>set (yielded s). i < length video_urls \<and> terminal (snd (futures s ! i)))
       \<and> overall_n s \<le> length video_urls
       \<and> (finished s \<longrightarrow> overall_n s = length video_urls)
       \<and> finished (exec ydl (drain (length video_urls)) s)"
proof -
  have inv: "counter_inv s"
    unfolding s_def download_videos_in_parallel_def
    by (intro counter_inv_exec counter_inv_init)
  have q: "queued_suffix s"
    unfolding s_def download_videos_in_parallel_def
    by (intro queued_suffix_exec queued_suffix_init)
  have ok: "attempts_from_one s"
    unfolding s_def download_videos_in_parallel_def
    by (intro attempts_from_one_exec attempts_from_one_init)
  have len: "length (futures s) = length video_urls"
    unfolding s_def download_videos_in_parallel_def by (simp add: submit_all_def)
  have tot: "overall_total s = length video_urls"
    using inv len by (simp add: counter_inv_def)
  have "finished (exec ydl (drain (length video_urls)) s)"
    using drain_finishes [OF inv q ok, of ydl] len by simp
  moreover have "overall_n s \<le> length video_urls"
    using counter_inv_le [OF inv] tot by simp
  moreover have "\<forall>i\<in>set (yielded s). i < length video_urls \<and> terminal (snd (futures s ! i))"
    using inv len by (auto simp: counter_inv_def)
  moreover have "overall_n s = length (yielded s)"
    using inv by (simp add: counter_inv_def)
  moreover have "finished s \<longrightarrow> overall_n s = length video_urls"
    using inv len by (simp add: counter_inv_def finished_def)
  ultimately show ?thesis by simp
qed

text \<open>
  Two URLs and no output directory. The first task loses the race for the directory and
  raises; its future is received while the second task is still running; the run ends with
  the counter at 2.
\<close>

theorem C3_overall_counter_witness:
  "finished
     (download_videos_in_parallel (\<lambda>i k. None)
        [Run 0, Run 1, Run 1, Run 0, Collect 0, Run 1, Collect 1]
        [''http://a.example/1'', ''http://a.example/2'']
        \<lparr>fs = {}, failed_log = [], stdout = [], ydl_calls = []\<rparr>)
   \<and> overall_n
     (download_videos_in_parallel (\<lambda>i k. None)
        [Run 0, Run 1, Run 1, Run 0, Collect 0, Run 1, Collect 1]
        [''http://a.example/1'', ''http://a.example/2'']
        \<lparr>fs = {}, failed_log = [], stdout = [], ydl_calls = []\<rparr>) = 2
   \<and> futures
     (download_videos_in_parallel (\<lambda>i k. None)
        [Run 0, Run 1, Run 1, Run 0, Collect 0, Run 1, Collect 1]
        [''http://a.example/1'', ''http://a.example/2'']
        \<lparr>fs = {}, failed_log = [], stdout = [], ydl_calls = []\<rparr>) =
       [(''http://a.example/1'', Raised (FileExistsError ''downloads'')),
        (''http://a.example/2'', Returned)]"
  using C3_overall_counter [of "\<lambda>i k. None"
      "[Run 0, Run 1, Run 1, Run 0, Collect 0, Run 1, Collect 1]"
      "[''http://a.example/1'', ''http://a.example/2'']"
      "\<lparr>fs = {}, failed_log = [], stdout = [], ydl_calls = []\<rparr>"]
  by (simp add: download_videos_in_parallel_def submit_all_def run_task_def collect_def can_start_def finished_def
      MAX_WORKERS_def OUTPUT_DIR_def MAX_RETRIES_def os_path_exists_def os_makedirs_def)

text \<open>
  Claim C8. Two tasks start while the output directory is missing. Both ask
  \<open>os.path.exists\<close> before either calls \<open>os.makedirs\<close>: the first call creates the directory,
  the second finds it there and raises \<open>FileExistsError\<close>. The second task ends with that
  exception, the extractor is never called for its URL, and the failure log stays empty;
  the extractor itself would have succeeded for both.
\<close>

theorem C8_makedirs_race:
  "download_videos_in_parallel (\<lambda>i k. None)
     [Run 0, Run 1, Run 0, Run 1, Run 0, Collect 0, Collect 1]
     [''http://a.example/1'', ''http://a.example/2'']
     \<lparr>fs = {}, failed_log = [], stdout = [], ydl_calls = []\<rparr> =
   \<lparr>futures = [(''http://a.example/1'', Returned),
               (''http://a.example/2'', Raised (FileExistsError ''downloads''))],
    yielded = [0, 1], overall_n = 2, overall_total = 2,
    shared = \<lparr>fs = {''downloads''}, failed_log = [],
              stdout = [DownloadComplete ''http://a.example/1'',
                        ErrorDownloading ''http://a.example/2'' (FileExistsError ''downloads'')],
              ydl_calls = [''http://a.example/1'']\<rparr>\<rparr>"
  by (simp add: download_videos_in_parallel_def submit_all_def run_task_def collect_def can_start_def
      MAX_WORKERS_def OUTPUT_DIR_def MAX_RETRIES_def os_path_exists_def os_makedirs_def)

end
